theory Spec2Isabelle
  imports Main
begin

section \<open>Data model (src/types.ts)\<close>

text \<open>
  \<^verbatim>\<open>type CircuitBreakerStatus = 'OPEN' | 'CLOSED' | 'HALF_OPEN'\<close>.
  The numbers of the source (counters, thresholds, epoch milliseconds) are integers here.
\<close>

datatype CircuitBreakerStatus = OPEN | CLOSED | HALF_OPEN

record CircuitBreakerOptions =
  failureThreshold :: int
  successThreshold :: int
  resetTimeoutMs :: int

record CircuitBreakerState =
  status :: CircuitBreakerStatus
  failureCount :: int
  successCount :: int
  openedAt :: "int option"

text \<open>
  Everything the source throws. \<open>Error msg\<close> is a plain \<^verbatim>\<open>new Error(msg)\<close>;
  the three classes of src/errors keep their names. \<open>ConcurrencyConflictError\<close> and
  \<open>ItemAlreadyExistsError\<close> carry the key their constructor is given,
  \<open>StorageOperationError\<close> its message and its cause.
\<close>

datatype error =
    Error string
  | ConcurrencyConflictError string
  | ItemAlreadyExistsError string
  | StorageOperationError string error

text \<open>
  The hooks are optional, and so is each callback. A callback observes its arguments and
  either returns (\<open>None\<close>) or throws (\<open>Some e\<close>); its third argument is the
  \<^verbatim>\<open>meta\<close> object (\<open>name\<close>, and \<open>operation\<close> for \<open>onError\<close>). The state objects
  it is shown are \<^verbatim>\<open>readonly\<close> in its type; it is given their fields and does not
  write to them or call the breaker.
\<close>

record CircuitBreakerHooks =
  onStateChange ::
    "(CircuitBreakerState \<Rightarrow> CircuitBreakerState \<Rightarrow> string option \<Rightarrow> error option) option"
  onError :: "(error \<Rightarrow> string option \<Rightarrow> string \<Rightarrow> error option) option"

section \<open>Object store\<close>

text \<open>
  State objects live in a store: \<open>cells\<close> maps an address to the object it holds and
  \<open>fresh\<close> is the next address to hand out. An object literal or an object spread
  \<^verbatim>\<open>{ ...x }\<close> allocates.
\<close>

type_synonym addr = nat

record Heap =
  cells :: "addr \<Rightarrow> CircuitBreakerState"
  fresh :: addr

definition alloc :: "CircuitBreakerState \<Rightarrow> Heap \<Rightarrow> addr \<times> Heap" where
  "alloc v h = (fresh h, h\<lparr>cells := (cells h)(fresh h := v), fresh := Suc (fresh h)\<rparr>)"

section \<open>The breaker engine (src/circuit-breaker.ts)\<close>

text \<open>
  The object's fields. \<open>state\<close> holds a reference into the store; it is the only field
  that is ever reassigned.
\<close>

record CircuitBreaker =
  state :: addr
  options :: CircuitBreakerOptions
  name :: "string option"
  hooks :: "CircuitBreakerHooks option"

type_synonym 'r outcome = "error + 'r"

text \<open>\<^verbatim>\<open>this.state\<close>, dereferenced.\<close>

definition this_state :: "'a CircuitBreaker_scheme \<Rightarrow> Heap \<Rightarrow> CircuitBreakerState" where
  "this_state b h = cells h (state b)"

text \<open>The constructor; the field initialiser allocates the initial state object.\<close>

definition new_CircuitBreaker ::
  "CircuitBreakerOptions \<Rightarrow> string option \<Rightarrow> CircuitBreakerHooks option \<Rightarrow> Heap
    \<Rightarrow> CircuitBreaker \<times> Heap" where
  "new_CircuitBreaker opts nm hks h =
     (let (r, h') = alloc \<lparr>status = CLOSED, failureCount = 0, successCount = 0, openedAt = None\<rparr> h
      in (\<lparr>state = r, options = opts, name = nm, hooks = hks\<rparr>, h'))"

text \<open>\<^verbatim>\<open>this.hooks?.onStateChange?.(prev, next, { name: this.name })\<close>\<close>

definition callOnStateChange ::
  "'a CircuitBreaker_scheme \<Rightarrow> CircuitBreakerState \<Rightarrow> CircuitBreakerState \<Rightarrow> unit outcome" where
  "callOnStateChange b prev next =
     (case hooks b of
        None \<Rightarrow> Inr ()
      | Some hk \<Rightarrow>
          (case onStateChange hk of
             None \<Rightarrow> Inr ()
           | Some f \<Rightarrow> (case f prev next (name b) of None \<Rightarrow> Inr () | Some e \<Rightarrow> Inl e)))"

text \<open>
  The body of every \<^verbatim>\<open>catch (err)\<close> of the engine:
  \<^verbatim>\<open>this.hooks?.onError?.(err, { name: this.name, operation }); throw err\<close>.
  What is thrown is \<open>err\<close>, unless the hook throws first.
\<close>

definition catchAndRethrow :: "'a CircuitBreaker_scheme \<Rightarrow> string \<Rightarrow> error \<Rightarrow> error" where
  "catchAndRethrow b operation err =
     (case hooks b of
        None \<Rightarrow> err
      | Some hk \<Rightarrow>
          (case onError hk of
             None \<Rightarrow> err
           | Some f \<Rightarrow> (case f err (name b) operation of None \<Rightarrow> err | Some e \<Rightarrow> e)))"

text \<open>
  \<^verbatim>\<open>setState(next)\<close>: remember the old reference, store a copy of \<open>next\<close>, then
  call the hook with both objects. The assignment precedes the hook call.
\<close>

definition setState ::
  "CircuitBreakerState \<Rightarrow> 'a CircuitBreaker_scheme \<Rightarrow> Heap
    \<Rightarrow> unit outcome \<times> 'a CircuitBreaker_scheme \<times> Heap" where
  "setState next b h =
     (let prev = state b;
          (r, h') = alloc next h;
          b' = b\<lparr>state := r\<rparr>
      in (callOnStateChange b' (cells h' prev) (cells h' (state b')), b', h'))"

text \<open>\<^verbatim>\<open>getState()\<close>: \<^verbatim>\<open>return { ...this.state }\<close>, a reference to a new object.\<close>

definition getState :: "'a CircuitBreaker_scheme \<Rightarrow> Heap \<Rightarrow> addr \<times> 'a CircuitBreaker_scheme \<times> Heap" where
  "getState b h = (let (r, h') = alloc (cells h (state b)) h in (r, b, h'))"

definition isOpen :: "'a CircuitBreaker_scheme \<Rightarrow> Heap \<Rightarrow> bool" where
  "isOpen b h = (status (cells h (state b)) = OPEN)"

definition isClosed :: "'a CircuitBreaker_scheme \<Rightarrow> Heap \<Rightarrow> bool" where
  "isClosed b h = (status (cells h (state b)) = CLOSED)"

definition isHalfOpen :: "'a CircuitBreaker_scheme \<Rightarrow> Heap \<Rightarrow> bool" where
  "isHalfOpen b h = (status (cells h (state b)) = HALF_OPEN)"

text \<open>
  \<^verbatim>\<open>this.state.openedAt && Date.now() - this.state.openedAt >= this.options.resetTimeoutMs\<close>:
  an \<open>openedAt\<close> that is undefined or 0 is falsy.
\<close>

definition readyToRetry :: "int \<Rightarrow> 'a CircuitBreaker_scheme \<Rightarrow> Heap \<Rightarrow> bool" where
  "readyToRetry now b h =
     (case openedAt (cells h (state b)) of
        None \<Rightarrow> False
      | Some t \<Rightarrow> t \<noteq> 0 \<and> now - t \<ge> resetTimeoutMs (options b))"

text \<open>
  The three operations. \<open>now\<close> is what \<^verbatim>\<open>Date.now()\<close> returns during the call.
  Each returns normally (\<open>Inr ()\<close>) or throws (\<open>Inl e\<close>), together with the object
  and the store it leaves behind.
\<close>

definition assertCanExecute ::
  "int \<Rightarrow> 'a CircuitBreaker_scheme \<Rightarrow> Heap \<Rightarrow> unit outcome \<times> 'a CircuitBreaker_scheme \<times> Heap" where
  "assertCanExecute now b h =
     (if isOpen b h then
        (if readyToRetry now b h then
           (case setState ((cells h (state b))
                    \<lparr>status := HALF_OPEN, successCount := 0, failureCount := 0\<rparr>) b h of
              (Inl err, b', h') \<Rightarrow> (Inl (catchAndRethrow b' ''assertCanExecute'' err), b', h')
            | (Inr u, b', h') \<Rightarrow> (Inr (), b', h'))
         else (Inl (catchAndRethrow b ''assertCanExecute'' (Error ''Circuit breaker is open'')), b, h))
      else (Inr (), b, h))"

definition recordSuccess ::
  "'a CircuitBreaker_scheme \<Rightarrow> Heap \<Rightarrow> unit outcome \<times> 'a CircuitBreaker_scheme \<times> Heap" where
  "recordSuccess b h =
     (if isHalfOpen b h then
        (let successCount' = successCount (cells h (state b)) + 1 in
         case
           (if successCount' \<ge> successThreshold (options b) then
              setState \<lparr>status = CLOSED, failureCount = 0, successCount = 0, openedAt = None\<rparr> b h
            else setState ((cells h (state b))\<lparr>successCount := successCount'\<rparr>) b h)
         of
           (Inl err, b', h') \<Rightarrow> (Inl (catchAndRethrow b' ''recordSuccess'' err), b', h')
         | (Inr u, b', h') \<Rightarrow> (Inr (), b', h'))
      else (Inr (), b, h))"

definition recordFailure ::
  "int \<Rightarrow> 'a CircuitBreaker_scheme \<Rightarrow> Heap \<Rightarrow> unit outcome \<times> 'a CircuitBreaker_scheme \<times> Heap" where
  "recordFailure now b h =
     (if isClosed b h \<or> isHalfOpen b h then
        (let failureCount' = failureCount (cells h (state b)) + 1 in
         case
           (if failureCount' \<ge> failureThreshold (options b) then
              setState \<lparr>status = OPEN, failureCount = 0, successCount = 0, openedAt = Some now\<rparr> b h
            else setState ((cells h (state b))\<lparr>failureCount := failureCount'\<rparr>) b h)
         of
           (Inl err, b', h') \<Rightarrow> (Inl (catchAndRethrow b' ''recordFailure'' err), b', h')
         | (Inr u, b', h') \<Rightarrow> (Inr (), b', h'))
      else (Inr (), b, h))"

section \<open>Calls and runs of the engine\<close>

text \<open>
  A call of one public method, and what its caller sees: a normal return, a thrown
  error, a boolean, or for \<open>getState\<close> the reference it returns together with the
  fields read through it.
\<close>

datatype call =
    AssertCanExecute int
  | RecordSuccess
  | RecordFailure int
  | GetState
  | IsOpen
  | IsClosed
  | IsHalfOpen

datatype result =
    Returned
  | Threw error
  | Snapshot addr CircuitBreakerState
  | Answer bool

definition observed :: "unit outcome \<Rightarrow> result" where
  "observed r = (case r of Inl e \<Rightarrow> Threw e | Inr u \<Rightarrow> Returned)"

fun exec :: "call \<Rightarrow> 'a CircuitBreaker_scheme \<Rightarrow> Heap \<Rightarrow> result \<times> 'a CircuitBreaker_scheme \<times> Heap" where
  "exec (AssertCanExecute now) b h =
     (case assertCanExecute now b h of (r, b', h') \<Rightarrow> (observed r, b', h'))"
| "exec RecordSuccess b h =
     (case recordSuccess b h of (r, b', h') \<Rightarrow> (observed r, b', h'))"
| "exec (RecordFailure now) b h =
     (case recordFailure now b h of (r, b', h') \<Rightarrow> (observed r, b', h'))"
| "exec GetState b h =
     (case getState b h of (r, b', h') \<Rightarrow> (Snapshot r (cells h' r), b', h'))"
| "exec IsOpen b h = (Answer (isOpen b h), b, h)"
| "exec IsClosed b h = (Answer (isClosed b h), b, h)"
| "exec IsHalfOpen b h = (Answer (isHalfOpen b h), b, h)"

text \<open>Calls made one after the other; a call that throws does not stop the caller.\<close>

fun run :: "call list \<Rightarrow> 'a CircuitBreaker_scheme \<Rightarrow> Heap
    \<Rightarrow> result list \<times> 'a CircuitBreaker_scheme \<times> Heap" where
  "run [] b h = ([], b, h)"
| "run (c # cs) b h =
     (case exec c b h of
        (r, b', h') \<Rightarrow> (case run cs b' h' of (rs, b'', h'') \<Rightarrow> (r # rs, b'', h'')))"

text \<open>
  Code outside the engine that holds a reference \<open>r\<close> can overwrite the fields of the
  object behind it (TypeScript's \<^verbatim>\<open>readonly\<close> is erased at run time).
\<close>

definition mutate :: "addr \<Rightarrow> CircuitBreakerState \<Rightarrow> Heap \<Rightarrow> Heap" where
  "mutate r v h = h\<lparr>cells := (cells h)(r := v)\<rparr>"

text \<open>
  A caller's activity after it obtained \<open>r\<close>: calls of the engine, interleaved with
  writes through \<open>r\<close>.
\<close>

datatype event = Call call | Mutate CircuitBreakerState

fun calls_of :: "event list \<Rightarrow> call list" where
  "calls_of [] = []"
| "calls_of (Call c # evs) = c # calls_of evs"
| "calls_of (Mutate v # evs) = calls_of evs"

fun run_events :: "addr \<Rightarrow> event list \<Rightarrow> 'a CircuitBreaker_scheme \<Rightarrow> Heap
    \<Rightarrow> result list \<times> 'a CircuitBreaker_scheme \<times> Heap" where
  "run_events r [] b h = ([], b, h)"
| "run_events r (Call c # evs) b h =
     (case exec c b h of
        (x, b', h') \<Rightarrow> (case run_events r evs b' h' of (xs, b'', h'') \<Rightarrow> (x # xs, b'', h'')))"
| "run_events r (Mutate v # evs) b h = run_events r evs b (mutate r v h)"

section \<open>The remote persistence extension (class RemoteCircuitBreaker, src/unnamed/part_001)\<close>

text \<open>
  \<^verbatim>\<open>VersionedStorageValue\<close> and the storage port \<^verbatim>\<open>AsyncCircuitBreakerStorage\<close>
  of src/types.ts. A backend is any triple of operations over a backend state \<open>'st\<close>
  of its own; each returns a value or throws, and leaves a backend state. The awaited
  calls are taken one after the other, and a backend does not reach into the breaker.
  The field \<^verbatim>\<open>value\<close> of the envelope is \<open>val\<close> here.
\<close>

record VersionedStorageValue =
  val :: CircuitBreakerState
  version :: string

record 'st AsyncCircuitBreakerStorage =
  put :: "string \<Rightarrow> CircuitBreakerState \<Rightarrow> 'st \<Rightarrow> string outcome \<times> 'st"
  get :: "string \<Rightarrow> 'st \<Rightarrow> VersionedStorageValue option outcome \<times> 'st"
  delete :: "string \<Rightarrow> 'st \<Rightarrow> unit outcome \<times> 'st"

text \<open>\<^verbatim>\<open>class RemoteCircuitBreaker extends CircuitBreaker\<close>, with its private \<open>storage\<close>.\<close>

record 'st RemoteCircuitBreaker = CircuitBreaker +
  storage :: "'st AsyncCircuitBreakerStorage"

text \<open>The constructor refuses an empty name before it calls \<^verbatim>\<open>super\<close>.\<close>

definition new_RemoteCircuitBreaker ::
  "CircuitBreakerOptions \<Rightarrow> 'st AsyncCircuitBreakerStorage \<Rightarrow> string
    \<Rightarrow> CircuitBreakerHooks option \<Rightarrow> Heap \<Rightarrow> ('st RemoteCircuitBreaker \<times> Heap) outcome" where
  "new_RemoteCircuitBreaker opts sto nm hks h =
     (if nm = [] then Inl (Error ''RemoteCircuitBreaker requires a non-empty name'')
      else
        (let (b, h') = new_CircuitBreaker opts (Some nm) hks h
         in Inr (CircuitBreaker.extend b (RemoteCircuitBreaker.fields sto), h')))"

text \<open>
  \<^verbatim>\<open>this.name!\<close>, the storage key. The constructor always sets the name, so the
  second case is not met on a constructed object.
\<close>

definition thisName :: "'a CircuitBreaker_scheme \<Rightarrow> string" where
  "thisName b = (case name b of Some n \<Rightarrow> n | None \<Rightarrow> [])"

definition isConcurrencyConflictError :: "error \<Rightarrow> bool" where
  "isConcurrencyConflictError err = (case err of ConcurrencyConflictError k \<Rightarrow> True | _ \<Rightarrow> False)"

definition isItemAlreadyExistsError :: "error \<Rightarrow> bool" where
  "isItemAlreadyExistsError err = (case err of ItemAlreadyExistsError k \<Rightarrow> True | _ \<Rightarrow> False)"

text \<open>
  Each operation returns its outcome, the object and the store (the in-memory side) and
  the backend state it leaves.
\<close>

definition save ::
  "('st, 'a) RemoteCircuitBreaker_scheme \<Rightarrow> Heap \<Rightarrow> 'st
    \<Rightarrow> unit outcome \<times> ('st, 'a) RemoteCircuitBreaker_scheme \<times> Heap \<times> 'st" where
  "save b h st =
     (case put (storage b) (thisName b) (cells h (state b)) st of
        (Inl err, st') \<Rightarrow>
          (if isConcurrencyConflictError err then (Inl err, b, h, st')
           else (Inl (StorageOperationError ''Failed to save circuit breaker state'' err), b, h, st'))
      | (Inr v, st') \<Rightarrow> (Inr (), b, h, st'))"

text \<open>The \<^verbatim>\<open>catch (err)\<close> of \<open>safeSave\<close>.\<close>

definition safeSaveCatch :: "error \<Rightarrow> error" where
  "safeSaveCatch err =
     (if isItemAlreadyExistsError err then err
      else StorageOperationError ''Failed to safeSave circuit breaker state'' err)"

definition safeSave ::
  "('st, 'a) RemoteCircuitBreaker_scheme \<Rightarrow> Heap \<Rightarrow> 'st
    \<Rightarrow> unit outcome \<times> ('st, 'a) RemoteCircuitBreaker_scheme \<times> Heap \<times> 'st" where
  "safeSave b h st =
     (case get (storage b) (thisName b) st of
        (Inl err, st') \<Rightarrow> (Inl (safeSaveCatch err), b, h, st')
      | (Inr existing, st') \<Rightarrow>
          (if existing \<noteq> None then
             (Inl (safeSaveCatch (ItemAlreadyExistsError (thisName b))), b, h, st')
           else
             (case save b h st' of
                (Inl err, b', h', st'') \<Rightarrow> (Inl (safeSaveCatch err), b', h', st'')
              | (Inr u, b', h', st'') \<Rightarrow> (Inr (), b', h', st''))))"

definition load ::
  "('st, 'a) RemoteCircuitBreaker_scheme \<Rightarrow> Heap \<Rightarrow> 'st
    \<Rightarrow> CircuitBreakerState option outcome \<times> ('st, 'a) RemoteCircuitBreaker_scheme \<times> Heap \<times> 'st" where
  "load b h st =
     (case get (storage b) (thisName b) st of
        (Inl err, st') \<Rightarrow>
          (Inl (StorageOperationError ''Failed to load circuit breaker state'' err), b, h, st')
      | (Inr None, st') \<Rightarrow> (Inr None, b, h, st')
      | (Inr (Some raw), st') \<Rightarrow> (Inr (Some (val raw)), b, h, st'))"

section \<open>Vocabulary of the properties\<close>

text \<open>The state the engine holds after an operation that returned \<open>x\<close>.\<close>

definition state_after :: "'r \<times> 'a CircuitBreaker_scheme \<times> Heap \<Rightarrow> CircuitBreakerState" where
  "state_after x = this_state (fst (snd x)) (snd (snd x))"

text \<open>
  The engine after its construction (on a store \<open>h0\<close>) and the calls \<open>cs\<close>, and the
  outcome of one more call \<open>c\<close> made on an outcome \<open>x\<close>.
\<close>

definition reached ::
  "CircuitBreakerOptions \<Rightarrow> string option \<Rightarrow> CircuitBreakerHooks option \<Rightarrow> Heap \<Rightarrow> call list
    \<Rightarrow> result list \<times> CircuitBreaker \<times> Heap" where
  "reached opts nm hks h0 cs = (case new_CircuitBreaker opts nm hks h0 of (b, h) \<Rightarrow> run cs b h)"

definition then_call ::
  "call \<Rightarrow> 'r \<times> 'a CircuitBreaker_scheme \<times> Heap \<Rightarrow> result \<times> 'a CircuitBreaker_scheme \<times> Heap" where
  "then_call c x = exec c (fst (snd x)) (snd (snd x))"

text \<open>\<open>openedAt\<close> is present exactly when the status is OPEN or HALF_OPEN.\<close>

definition wf_state :: "CircuitBreakerState \<Rightarrow> bool" where
  "wf_state s = (openedAt s \<noteq> None \<longleftrightarrow> status s = OPEN \<or> status s = HALF_OPEN)"

text \<open>The supplied hooks do not throw: every callback that is present always returns.\<close>

definition hooks_never_throw :: "'a CircuitBreaker_scheme \<Rightarrow> bool" where
  "hooks_never_throw b =
     (case hooks b of
        None \<Rightarrow> True
      | Some hk \<Rightarrow>
          (case onStateChange hk of None \<Rightarrow> True | Some f \<Rightarrow> \<forall>p n m. f p n m = None) \<and>
          (case onError hk of None \<Rightarrow> True | Some g \<Rightarrow> \<forall>e m operation. g e m operation = None))"

text \<open>The engine's state object is allocated: its address is below the next free one.\<close>

definition allocated :: "'a CircuitBreaker_scheme \<Rightarrow> Heap \<Rightarrow> bool" where
  "allocated b h = (state b < fresh h)"

text \<open>
  Two stores that differ at most in the object at \<open>r\<close>, where \<open>r\<close> is an allocated
  address other than the one the engine's \<open>state\<close> field holds.
\<close>

definition agree_except ::
  "addr \<Rightarrow> 'a CircuitBreaker_scheme \<Rightarrow> Heap \<Rightarrow> Heap \<Rightarrow> bool" where
  "agree_except r b h h' =
     (fresh h = fresh h' \<and> (\<forall>a. a \<noteq> r \<longrightarrow> cells h a = cells h' a) \<and>
      r < fresh h \<and> state b \<noteq> r \<and> state b < fresh h)"

section \<open>Concrete inputs\<close>

text \<open>
  The configuration of the repository's tests, a breaker without name and hooks whose
  state object is at address 0, and a store that holds one given state object there.
\<close>

definition test_options :: CircuitBreakerOptions where
  "test_options = \<lparr>failureThreshold = 2, successThreshold = 2, resetTimeoutMs = 1000\<rparr>"

definition test_breaker :: CircuitBreaker where
  "test_breaker = \<lparr>state = 0, options = test_options, name = None, hooks = None\<rparr>"

definition store_of :: "CircuitBreakerState \<Rightarrow> Heap" where
  "store_of s = \<lparr>cells = (\<lambda>a. s), fresh = 1\<rparr>"

definition half_open_state :: CircuitBreakerState where
  "half_open_state =
     \<lparr>status = HALF_OPEN, failureCount = 0, successCount = 0, openedAt = Some 1000\<rparr>"

definition open_state :: CircuitBreakerState where
  "open_state = \<lparr>status = OPEN, failureCount = 0, successCount = 0, openedAt = Some 1000\<rparr>"

definition closed_state :: CircuitBreakerState where
  "closed_state = \<lparr>status = CLOSED, failureCount = 0, successCount = 0, openedAt = None\<rparr>"

text \<open>Hooks that are both present and only observe.\<close>

definition quiet_hooks :: CircuitBreakerHooks where
  "quiet_hooks =
     \<lparr>onStateChange = Some (\<lambda>p n m. None), onError = Some (\<lambda>e m operation. None)\<rparr>"

text \<open>
  Two storage backends. \<open>map_storage\<close> keeps its entries in a map and never fails;
  it gives every entry the version \<open>v1\<close>. \<open>conflict_storage\<close> holds nothing and loses
  every optimistic-concurrency race: its \<open>put\<close> throws \<open>ConcurrencyConflictError\<close>.
\<close>

definition map_storage :: "(string \<rightharpoonup> VersionedStorageValue) AsyncCircuitBreakerStorage" where
  "map_storage =
     \<lparr>put = (\<lambda>k v st. (Inr ''v1'', st(k \<mapsto> \<lparr>val = v, version = ''v1''\<rparr>))),
      get = (\<lambda>k st. (Inr (st k), st)),
      delete = (\<lambda>k st. (Inr (), st(k := None)))\<rparr>"

definition conflict_storage :: "unit AsyncCircuitBreakerStorage" where
  "conflict_storage =
     \<lparr>put = (\<lambda>k v st. (Inl (ConcurrencyConflictError k), st)),
      get = (\<lambda>k st. (Inr None, st)),
      delete = (\<lambda>k st. (Inr (), st))\<rparr>"

text \<open>A remote breaker named \<open>test-cb\<close>, as in the repository's tests, on a given backend.\<close>

definition test_remote :: "'st AsyncCircuitBreakerStorage \<Rightarrow> 'st RemoteCircuitBreaker" where
  "test_remote sto =
     \<lparr>state = 0, options = test_options, name = Some ''test-cb'', hooks = None, storage = sto\<rparr>"

section \<open>The state each operation leaves\<close>

lemma state_after_setState: "state_after (setState next b h) = next"
  by (simp add: state_after_def setState_def alloc_def this_state_def Let_def)

lemma state_after_recordSuccess:
  "state_after (recordSuccess b h) =
     (if status (this_state b h) = HALF_OPEN then
        (if successCount (this_state b h) + 1 \<ge> successThreshold (options b) then
           \<lparr>status = CLOSED, failureCount = 0, successCount = 0, openedAt = None\<rparr>
         else (this_state b h)\<lparr>successCount := successCount (this_state b h) + 1\<rparr>)
      else this_state b h)"
  by (auto simp: recordSuccess_def isHalfOpen_def state_after_def setState_def alloc_def
        this_state_def Let_def split: prod.splits sum.splits)

lemma state_after_recordFailure:
  "state_after (recordFailure now b h) =
     (if status (this_state b h) = CLOSED \<or> status (this_state b h) = HALF_OPEN then
        (if failureCount (this_state b h) + 1 \<ge> failureThreshold (options b) then
           \<lparr>status = OPEN, failureCount = 0, successCount = 0, openedAt = Some now\<rparr>
         else (this_state b h)\<lparr>failureCount := failureCount (this_state b h) + 1\<rparr>)
      else this_state b h)"
  by (auto simp: recordFailure_def isHalfOpen_def isClosed_def state_after_def setState_def
        alloc_def this_state_def Let_def split: prod.splits sum.splits)

lemma state_after_assertCanExecute:
  "state_after (assertCanExecute now b h) =
     (if status (this_state b h) = OPEN \<and> readyToRetry now b h then
        (this_state b h)\<lparr>status := HALF_OPEN, successCount := 0, failureCount := 0\<rparr>
      else this_state b h)"
  by (auto simp: assertCanExecute_def isOpen_def state_after_def setState_def alloc_def
        this_state_def Let_def split: prod.splits sum.splits)

section \<open>Hooks that do not throw\<close>

lemma callOnStateChange_quiet: "hooks_never_throw b \<Longrightarrow> callOnStateChange b p n = Inr ()"
  by (auto simp: hooks_never_throw_def callOnStateChange_def split: option.splits)

lemma catchAndRethrow_quiet: "hooks_never_throw b \<Longrightarrow> catchAndRethrow b operation err = err"
  by (auto simp: hooks_never_throw_def catchAndRethrow_def split: option.splits)

lemma hooks_never_throw_state_update [simp]:
  "hooks_never_throw (b\<lparr>state := r\<rparr>) = hooks_never_throw b"
  by (simp add: hooks_never_throw_def)

lemma setState_quiet: "hooks_never_throw b \<Longrightarrow> fst (setState next b h) = Inr ()"
  by (simp add: setState_def alloc_def Let_def callOnStateChange_quiet)

lemma setState_quietD:
  "hooks_never_throw b \<Longrightarrow> setState next b h = (Inl e, b', h') \<Longrightarrow> False"
  using setState_quiet [of b "next" h] by simp

lemma recordSuccess_quiet: "hooks_never_throw b \<Longrightarrow> fst (recordSuccess b h) = Inr ()"
  by (auto simp: recordSuccess_def Let_def split: prod.splits sum.splits dest: setState_quietD)

lemma recordFailure_quiet: "hooks_never_throw b \<Longrightarrow> fst (recordFailure now b h) = Inr ()"
  by (auto simp: recordFailure_def Let_def split: prod.splits sum.splits dest: setState_quietD)

lemma recordSuccess_noop:
  "status (this_state b h) \<noteq> HALF_OPEN \<Longrightarrow> recordSuccess b h = (Inr (), b, h)"
  by (simp add: recordSuccess_def isHalfOpen_def this_state_def)

lemma recordFailure_noop:
  "status (this_state b h) = OPEN \<Longrightarrow> recordFailure now b h = (Inr (), b, h)"
  by (simp add: recordFailure_def isHalfOpen_def isClosed_def this_state_def)

lemmas example_defs =
  test_breaker_def test_options_def store_of_def half_open_state_def open_state_def
  closed_state_def this_state_def quiet_hooks_def

section \<open>Successes while HALF_OPEN\<close>

text \<open>
  C4. In a state with status HALF_OPEN (and a positive \<open>successThreshold\<close>),
  \<open>recordSuccess()\<close> increments \<open>successCount\<close>. If the incremented count reaches
  \<open>successThreshold\<close>, the state becomes CLOSED with both counters 0 and \<open>openedAt\<close>
  cleared; otherwise the new state is the old one with \<open>successCount\<close> incremented and
  nothing else changed, so its status is still HALF_OPEN.
\<close>

theorem recordSuccess_half_open:
  assumes "status (this_state b h) = HALF_OPEN" and "0 < successThreshold (options b)"
  shows "state_after (recordSuccess b h) =
           (if successCount (this_state b h) + 1 \<ge> successThreshold (options b) then
              \<lparr>status = CLOSED, failureCount = 0, successCount = 0, openedAt = None\<rparr>
            else (this_state b h)\<lparr>successCount := successCount (this_state b h) + 1\<rparr>)"
  using assms by (simp add: state_after_recordSuccess)

text \<open>
  With the thresholds of the tests (2): the first success after the probe is admitted
  keeps HALF_OPEN with \<open>successCount = 1\<close>, the second one closes.
\<close>

theorem recordSuccess_half_open_witness:
  "status (this_state test_breaker (store_of half_open_state)) = HALF_OPEN \<and>
   0 < successThreshold (options test_breaker) \<and>
   state_after (recordSuccess test_breaker (store_of half_open_state)) =
     \<lparr>status = HALF_OPEN, failureCount = 0, successCount = 1, openedAt = Some 1000\<rparr> \<and>
   state_after (recordSuccess test_breaker (store_of (half_open_state\<lparr>successCount := 1\<rparr>))) =
     \<lparr>status = CLOSED, failureCount = 0, successCount = 0, openedAt = None\<rparr>"
  using recordSuccess_half_open [of test_breaker "store_of half_open_state"]
    recordSuccess_half_open [of test_breaker "store_of (half_open_state\<lparr>successCount := 1\<rparr>)"]
  by (simp add: example_defs)

section \<open>Failures while HALF_OPEN\<close>

text \<open>
  C1, as stated: in every state with status HALF_OPEN a single \<open>recordFailure()\<close>
  opens the breaker, however large \<open>failureThreshold\<close> is. The engine does not do
  that: with \<open>failureThreshold = 2\<close> the probe state admitted by \<open>assertCanExecute\<close>
  (both counters 0) stays HALF_OPEN after one failure, with \<open>failureCount = 1\<close>.
\<close>

theorem recordFailure_half_open_counterexample:
  "status (this_state test_breaker (store_of half_open_state)) = HALF_OPEN \<and>
   state_after (recordFailure 5000 test_breaker (store_of half_open_state)) =
     \<lparr>status = HALF_OPEN, failureCount = 1, successCount = 0, openedAt = Some 1000\<rparr> \<and>
   status (state_after (recordFailure 5000 test_breaker (store_of half_open_state))) \<noteq> OPEN"
  by (simp add: state_after_recordFailure example_defs)

text \<open>
  C1, amended: in a state with status HALF_OPEN, \<open>recordFailure()\<close> counts the failure
  against the same \<open>failureThreshold\<close> as in CLOSED. If \<open>failureCount + 1\<close> reaches
  \<open>failureThreshold\<close> the breaker goes to OPEN (counters 0, \<open>openedAt\<close> the current
  time), whatever \<open>successCount\<close> was; otherwise it stays HALF_OPEN and only
  \<open>failureCount\<close> is incremented.
\<close>

theorem recordFailure_half_open:
  assumes "status (this_state b h) = HALF_OPEN"
  shows "state_after (recordFailure now b h) =
           (if failureCount (this_state b h) + 1 \<ge> failureThreshold (options b) then
              \<lparr>status = OPEN, failureCount = 0, successCount = 0, openedAt = Some now\<rparr>
            else (this_state b h)\<lparr>failureCount := failureCount (this_state b h) + 1\<rparr>)"
  using assms by (simp add: state_after_recordFailure)

theorem recordFailure_half_open_witness:
  "status (this_state test_breaker (store_of half_open_state)) = HALF_OPEN \<and>
   state_after (recordFailure 5000 test_breaker (store_of half_open_state)) =
     \<lparr>status = HALF_OPEN, failureCount = 1, successCount = 0, openedAt = Some 1000\<rparr> \<and>
   state_after (recordFailure 5000 test_breaker (store_of (half_open_state\<lparr>failureCount := 1\<rparr>))) =
     \<lparr>status = OPEN, failureCount = 0, successCount = 0, openedAt = Some 5000\<rparr>"
  using recordFailure_half_open [of test_breaker "store_of half_open_state" 5000]
    recordFailure_half_open [of test_breaker "store_of (half_open_state\<lparr>failureCount := 1\<rparr>)" 5000]
  by (simp add: example_defs)

section \<open>Recording never raises\<close>

text \<open>
  C7. When the supplied hooks do not throw, \<open>recordSuccess()\<close> and \<open>recordFailure()\<close>
  return normally in every state. \<open>recordSuccess()\<close> changes nothing when the status is
  CLOSED or OPEN (a success reported while OPEN is dropped), and \<open>recordFailure()\<close>
  changes nothing when the status is OPEN: the object and the store are returned as
  they were.
\<close>

theorem record_never_raises:
  assumes "hooks_never_throw b"
  shows "fst (recordSuccess b h) = Inr () \<and>
         fst (recordFailure now b h) = Inr () \<and>
         (status (this_state b h) = CLOSED \<or> status (this_state b h) = OPEN \<longrightarrow>
            recordSuccess b h = (Inr (), b, h)) \<and>
         (status (this_state b h) = OPEN \<longrightarrow> recordFailure now b h = (Inr (), b, h))"
  using assms
  by (auto simp: recordSuccess_quiet recordFailure_quiet recordSuccess_noop recordFailure_noop)

theorem record_never_raises_witness:
  "hooks_never_throw (test_breaker\<lparr>hooks := Some quiet_hooks\<rparr>) \<and>
   status (this_state (test_breaker\<lparr>hooks := Some quiet_hooks\<rparr>) (store_of open_state)) = OPEN \<and>
   recordSuccess (test_breaker\<lparr>hooks := Some quiet_hooks\<rparr>) (store_of open_state) =
     (Inr (), test_breaker\<lparr>hooks := Some quiet_hooks\<rparr>, store_of open_state) \<and>
   recordFailure 5000 (test_breaker\<lparr>hooks := Some quiet_hooks\<rparr>) (store_of open_state) =
     (Inr (), test_breaker\<lparr>hooks := Some quiet_hooks\<rparr>, store_of open_state) \<and>
   fst (recordFailure 5000 (test_breaker\<lparr>hooks := Some quiet_hooks\<rparr>) (store_of half_open_state))
     = Inr ()"
  using record_never_raises [of "test_breaker\<lparr>hooks := Some quiet_hooks\<rparr>" "store_of open_state" 5000]
    record_never_raises [of "test_breaker\<lparr>hooks := Some quiet_hooks\<rparr>" "store_of half_open_state" 5000]
  by (simp add: example_defs hooks_never_throw_def)

section \<open>The execute gate while OPEN\<close>

lemma assertCanExecute_blocked:
  "status (this_state b h) = OPEN \<Longrightarrow> \<not> readyToRetry now b h \<Longrightarrow>
   assertCanExecute now b h =
     (Inl (catchAndRethrow b ''assertCanExecute'' (Error ''Circuit breaker is open'')), b, h)"
  by (simp add: assertCanExecute_def isOpen_def this_state_def)

lemma assertCanExecute_quiet_admit:
  "hooks_never_throw b \<Longrightarrow> status (this_state b h) = OPEN \<Longrightarrow> readyToRetry now b h \<Longrightarrow>
   fst (assertCanExecute now b h) = Inr ()"
  by (auto simp: assertCanExecute_def isOpen_def this_state_def split: prod.splits sum.splits
      dest: setState_quietD)

lemma readyToRetry_Some:
  "openedAt (this_state b h) = Some t \<Longrightarrow>
   readyToRetry now b h = (t \<noteq> 0 \<and> now - t \<ge> resetTimeoutMs (options b))"
  by (simp add: readyToRetry_def this_state_def)

text \<open>
  C2, as stated: when the status is OPEN and \<open>now - openedAt \<ge> resetTimeoutMs\<close>, the
  gate moves to HALF_OPEN with both counters 0 and \<open>openedAt\<close> cleared. The engine
  builds the new state as a spread of the old one and overrides only \<open>status\<close> and the
  two counters, so \<open>openedAt\<close> is still there afterwards.
\<close>

theorem assertCanExecute_open_counterexample:
  "status (this_state test_breaker (store_of open_state)) = OPEN \<and>
   openedAt (this_state test_breaker (store_of open_state)) = Some 1000 \<and>
   2000 - 1000 \<ge> resetTimeoutMs (options test_breaker) \<and>
   fst (assertCanExecute 2000 test_breaker (store_of open_state)) = Inr () \<and>
   state_after (assertCanExecute 2000 test_breaker (store_of open_state)) =
     \<lparr>status = HALF_OPEN, failureCount = 0, successCount = 0, openedAt = Some 1000\<rparr> \<and>
   openedAt (state_after (assertCanExecute 2000 test_breaker (store_of open_state))) \<noteq> None"
  by (simp add: state_after_assertCanExecute assertCanExecute_quiet_admit readyToRetry_Some
      hooks_never_throw_def example_defs)

text \<open>
  C2, amended: in a state with status OPEN whose \<open>openedAt\<close> is set (and not 0):
  if \<open>now - openedAt < resetTimeoutMs\<close>, the gate throws and leaves the object and the
  store as they were, and what it throws is the plain error \<open>Circuit breaker is open\<close>
  when the hooks do not throw; if \<open>now - openedAt \<ge> resetTimeoutMs\<close>, the state
  becomes HALF_OPEN with \<open>failureCount = 0\<close>, \<open>successCount = 0\<close> and \<open>openedAt\<close>
  kept, and the gate returns normally when the hooks do not throw.
\<close>

theorem assertCanExecute_open:
  assumes "status (this_state b h) = OPEN"
    and "openedAt (this_state b h) = Some t" and "t \<noteq> 0"
  shows "if now - t < resetTimeoutMs (options b) then
           (\<exists>e. assertCanExecute now b h = (Inl e, b, h)) \<and>
           (hooks_never_throw b \<longrightarrow>
              fst (assertCanExecute now b h) = Inl (Error ''Circuit breaker is open''))
         else
           state_after (assertCanExecute now b h) =
             \<lparr>status = HALF_OPEN, failureCount = 0, successCount = 0, openedAt = Some t\<rparr> \<and>
           (hooks_never_throw b \<longrightarrow> fst (assertCanExecute now b h) = Inr ())"
proof (cases "now - t < resetTimeoutMs (options b)")
  case True
  with assms have "\<not> readyToRetry now b h" by (simp add: readyToRetry_Some)
  with assms(1) have "assertCanExecute now b h =
     (Inl (catchAndRethrow b ''assertCanExecute'' (Error ''Circuit breaker is open'')), b, h)"
    by (rule assertCanExecute_blocked)
  with True show ?thesis by (simp add: catchAndRethrow_quiet)
next
  case False
  with assms have r: "readyToRetry now b h" by (simp add: readyToRetry_Some)
  have "state_after (assertCanExecute now b h) =
      (this_state b h)\<lparr>status := HALF_OPEN, successCount := 0, failureCount := 0\<rparr>"
    using assms(1) r by (simp add: state_after_assertCanExecute)
  also have "\<dots> = \<lparr>status = HALF_OPEN, failureCount = 0, successCount = 0, openedAt = Some t\<rparr>"
    using assms(2) by (cases "this_state b h") simp
  finally show ?thesis using False assms(1) r by (simp add: assertCanExecute_quiet_admit)
qed

theorem assertCanExecute_open_witness:
  "status (this_state test_breaker (store_of open_state)) = OPEN \<and>
   openedAt (this_state test_breaker (store_of open_state)) = Some 1000 \<and> (1000::int) \<noteq> 0 \<and>
   hooks_never_throw test_breaker \<and>
   assertCanExecute 1999 test_breaker (store_of open_state) =
     (Inl (Error ''Circuit breaker is open''), test_breaker, store_of open_state) \<and>
   fst (assertCanExecute 2000 test_breaker (store_of open_state)) = Inr () \<and>
   state_after (assertCanExecute 2000 test_breaker (store_of open_state)) =
     \<lparr>status = HALF_OPEN, failureCount = 0, successCount = 0, openedAt = Some 1000\<rparr>"
  using assertCanExecute_open [of test_breaker "store_of open_state" 1000 1999]
    assertCanExecute_open [of test_breaker "store_of open_state" 1000 2000]
  by (auto simp add: example_defs hooks_never_throw_def)

section \<open>Failures while CLOSED\<close>

lemma state_after_run_Cons:
  "state_after (run (c # cs) b h) = state_after (run cs (fst (snd (exec c b h))) (snd (snd (exec c b h))))"
  by (simp add: state_after_def split: prod.splits)

lemma run_append:
  "run (cs @ ds) b h =
     (case run cs b h of (rs, b', h') \<Rightarrow>
        (case run ds b' h' of (rs', b'', h'') \<Rightarrow> (rs @ rs', b'', h'')))"
  by (induction cs arbitrary: b h) (auto split: prod.splits)

lemma state_after_run_snoc:
  "state_after (run (cs @ [c]) b h) = state_after (exec c (fst (snd (run cs b h))) (snd (snd (run cs b h))))"
  by (simp add: run_append state_after_def split: prod.splits)

lemma state_after_exec_RecordFailure:
  "state_after (exec (RecordFailure now) b h) = state_after (recordFailure now b h)"
  by (simp add: state_after_def split: prod.splits)

lemma options_exec: "options (fst (snd (exec c b h))) = options b"
  by (cases c)
    (auto simp: assertCanExecute_def recordSuccess_def recordFailure_def getState_def
      setState_def alloc_def Let_def split: prod.splits sum.splits)

lemma snd_run_Cons:
  "snd (run (c # cs) b h) = snd (run cs (fst (snd (exec c b h))) (snd (snd (exec c b h))))"
  by (simp split: prod.splits)

lemma options_run: "options (fst (snd (run cs b h))) = options b"
  by (induction cs arbitrary: b h) (simp_all add: snd_run_Cons options_exec del: run.simps(2))

lemma this_state_after: "this_state (fst (snd x)) (snd (snd x)) = state_after x"
  by (simp add: state_after_def)

lemma failures_below_threshold:
  "status (this_state b h) = CLOSED \<Longrightarrow>
   failureCount (this_state b h) + int (length nows) < failureThreshold (options b) \<Longrightarrow>
   state_after (run (map RecordFailure nows) b h) =
     (this_state b h)\<lparr>failureCount := failureCount (this_state b h) + int (length nows)\<rparr>"
proof (induction nows rule: rev_induct)
  case Nil
  then show ?case by (simp add: state_after_def)
next
  case (snoc t ts)
  let ?x = "run (map RecordFailure ts) b h"
  have below: "failureCount (this_state b h) + int (length ts) < failureThreshold (options b)"
    using snoc.prems(2) by simp
  have mid: "state_after ?x =
      (this_state b h)\<lparr>failureCount := failureCount (this_state b h) + int (length ts)\<rparr>"
    using snoc.IH [OF snoc.prems(1) below] .
  have "state_after (run (map RecordFailure (ts @ [t])) b h) =
      state_after (recordFailure t (fst (snd ?x)) (snd (snd ?x)))"
    by (simp add: state_after_run_snoc state_after_exec_RecordFailure del: exec.simps)
  also have "\<dots> = (state_after ?x)\<lparr>failureCount := failureCount (state_after ?x) + 1\<rparr>"
    using snoc.prems mid
    by (simp add: state_after_recordFailure this_state_after options_run)
  finally show ?case using mid by simp
qed

text \<open>
  C3. Start from a CLOSED state with \<open>failureCount = 0\<close> and a positive
  \<open>failureThreshold\<close>, and call \<open>recordFailure()\<close> repeatedly (\<open>nows\<close> lists the
  clock readings of the calls). After fewer calls than \<open>failureThreshold\<close> the state
  is the initial one with \<open>failureCount\<close> equal to the number of calls, so it is still
  CLOSED; after exactly \<open>failureThreshold\<close> calls it is OPEN with both counters 0 and
  \<open>openedAt\<close> the time of the last call.
\<close>

theorem failures_until_threshold:
  assumes "status (this_state b h) = CLOSED" and "failureCount (this_state b h) = 0"
    and "0 < failureThreshold (options b)"
  shows "(int (length nows) < failureThreshold (options b) \<longrightarrow>
            state_after (run (map RecordFailure nows) b h) =
              (this_state b h)\<lparr>failureCount := int (length nows)\<rparr>) \<and>
         (int (length nows) = failureThreshold (options b) \<longrightarrow>
            state_after (run (map RecordFailure nows) b h) =
              \<lparr>status = OPEN, failureCount = 0, successCount = 0, openedAt = Some (last nows)\<rparr>)"
proof (intro conjI impI)
  assume "int (length nows) < failureThreshold (options b)"
  with assms show "state_after (run (map RecordFailure nows) b h) =
      (this_state b h)\<lparr>failureCount := int (length nows)\<rparr>"
    using failures_below_threshold [of b h nows] by simp
next
  assume len: "int (length nows) = failureThreshold (options b)"
  with assms(3) have "nows \<noteq> []" by auto
  then obtain ts t where nows: "nows = ts @ [t]" by (meson rev_exhaust)
  let ?x = "run (map RecordFailure ts) b h"
  have below: "failureCount (this_state b h) + int (length ts) < failureThreshold (options b)"
    using len nows assms(2) by simp
  have mid: "state_after ?x = (this_state b h)\<lparr>failureCount := int (length ts)\<rparr>"
    using failures_below_threshold [OF assms(1) below] assms(2) by simp
  have "state_after (run (map RecordFailure nows) b h) =
      state_after (recordFailure t (fst (snd ?x)) (snd (snd ?x)))"
    by (simp add: nows state_after_run_snoc state_after_exec_RecordFailure del: exec.simps)
  also have "\<dots> = \<lparr>status = OPEN, failureCount = 0, successCount = 0, openedAt = Some t\<rparr>"
    using assms(1) len nows mid
    by (simp add: state_after_recordFailure this_state_after options_run)
  finally show "state_after (run (map RecordFailure nows) b h) =
      \<lparr>status = OPEN, failureCount = 0, successCount = 0, openedAt = Some (last nows)\<rparr>"
    by (simp add: nows)
qed

theorem failures_until_threshold_witness:
  "status (this_state test_breaker (store_of closed_state)) = CLOSED \<and>
   failureCount (this_state test_breaker (store_of closed_state)) = 0 \<and>
   0 < failureThreshold (options test_breaker) \<and>
   int (length [10::int]) < failureThreshold (options test_breaker) \<and>
   state_after (run (map RecordFailure [10]) test_breaker (store_of closed_state)) =
     \<lparr>status = CLOSED, failureCount = 1, successCount = 0, openedAt = None\<rparr> \<and>
   int (length [10::int, 20]) = failureThreshold (options test_breaker) \<and>
   state_after (run (map RecordFailure [10, 20]) test_breaker (store_of closed_state)) =
     \<lparr>status = OPEN, failureCount = 0, successCount = 0, openedAt = Some 20\<rparr>"
  using failures_until_threshold [of test_breaker "store_of closed_state" "[10]"]
    failures_until_threshold [of test_breaker "store_of closed_state" "[10, 20]"]
  by (simp add: example_defs)

section \<open>Saving: which error reaches the caller\<close>

lemma save_conflict:
  "put (storage b) (thisName b) (this_state b h) st = (Inl (ConcurrencyConflictError k), st') \<Longrightarrow>
   save b h st = (Inl (ConcurrencyConflictError k), b, h, st')"
  by (simp add: save_def isConcurrencyConflictError_def this_state_def)

lemma safeSave_conflict:
  "get (storage b) (thisName b) st = (Inr None, st') \<Longrightarrow>
   put (storage b) (thisName b) (this_state b h) st' = (Inl (ConcurrencyConflictError k), st'') \<Longrightarrow>
   safeSave b h st =
     (Inl (StorageOperationError ''Failed to safeSave circuit breaker state''
            (ConcurrencyConflictError k)), b, h, st'')"
  by (simp add: safeSave_def save_conflict safeSaveCatch_def isItemAlreadyExistsError_def)

text \<open>
  C5 says that \<open>save()\<close> and \<open>safeSave()\<close> (on an absent entry) both hand the
  backend's \<open>ConcurrencyConflictError\<close> to the caller unwrapped. \<open>save()\<close> does.
  \<open>safeSave()\<close> does not: the error that \<open>save()\<close> rethrows is caught by the
  \<^verbatim>\<open>catch\<close> of \<open>safeSave()\<close>, which lets only \<open>ItemAlreadyExistsError\<close> through and
  wraps everything else. On a backend with no entry whose \<open>put\<close> loses the race, the
  caller of \<open>safeSave()\<close> gets a \<open>StorageOperationError\<close> whose cause is the conflict.
\<close>

theorem safeSave_wraps_conflict:
  "save (test_remote conflict_storage) (store_of closed_state) () =
     (Inl (ConcurrencyConflictError ''test-cb''),
      test_remote conflict_storage, store_of closed_state, ()) \<and>
   safeSave (test_remote conflict_storage) (store_of closed_state) () =
     (Inl (StorageOperationError ''Failed to safeSave circuit breaker state''
            (ConcurrencyConflictError ''test-cb'')),
      test_remote conflict_storage, store_of closed_state, ())"
  by (simp add: save_def safeSave_def safeSaveCatch_def isConcurrencyConflictError_def
      isItemAlreadyExistsError_def thisName_def test_remote_def conflict_storage_def)

section \<open>\<open>safeSave\<close> on an existing entry\<close>

text \<open>
  C6. When the backend already has an entry under the breaker's name, \<open>safeSave()\<close>
  throws \<open>ItemAlreadyExistsError\<close> with that name and writes nothing: the backend is
  left in the state in which the read left it (\<open>put\<close> is not called), and the object
  and the store of the breaker are as before.
\<close>

theorem safeSave_existing:
  assumes "name b = Some n"
    and "get (storage b) n st = (Inr (Some v), st')"
  shows "safeSave b h st = (Inl (ItemAlreadyExistsError n), b, h, st')"
  using assms
  by (simp add: safeSave_def safeSaveCatch_def isItemAlreadyExistsError_def thisName_def)

text \<open>On the map backend, where a read changes nothing, the entry is the same afterwards.\<close>

theorem safeSave_existing_witness:
  "name (test_remote map_storage) = Some ''test-cb'' \<and>
   get (storage (test_remote map_storage)) ''test-cb''
       [''test-cb'' \<mapsto> \<lparr>val = open_state, version = ''v0''\<rparr>] =
     (Inr (Some \<lparr>val = open_state, version = ''v0''\<rparr>),
      [''test-cb'' \<mapsto> \<lparr>val = open_state, version = ''v0''\<rparr>]) \<and>
   safeSave (test_remote map_storage) (store_of closed_state)
       [''test-cb'' \<mapsto> \<lparr>val = open_state, version = ''v0''\<rparr>] =
     (Inl (ItemAlreadyExistsError ''test-cb''), test_remote map_storage, store_of closed_state,
      [''test-cb'' \<mapsto> \<lparr>val = open_state, version = ''v0''\<rparr>])"
  using safeSave_existing [of "test_remote map_storage" "''test-cb''"
      "[''test-cb'' \<mapsto> \<lparr>val = open_state, version = ''v0''\<rparr>]"
      "\<lparr>val = open_state, version = ''v0''\<rparr>"
      "[''test-cb'' \<mapsto> \<lparr>val = open_state, version = ''v0''\<rparr>]" "store_of closed_state"]
  by (simp add: test_remote_def map_storage_def)

section \<open>\<open>load\<close> only reads\<close>

text \<open>
  C10. For every in-memory state and every backend, \<open>load()\<close> returns the breaker
  object and the store exactly as it found them, so the engine's state is the same
  before and after: what was loaded goes to the caller and is not installed.
\<close>

theorem load_read_only:
  "fst (snd (load b h st)) = b \<and> fst (snd (snd (load b h st))) = h \<and>
   this_state (fst (snd (load b h st))) (fst (snd (snd (load b h st)))) = this_state b h"
  by (simp add: load_def split: prod.splits sum.splits option.splits)

text \<open>A stored OPEN state is returned while the engine stays CLOSED.\<close>

lemma load_example:
  "load (test_remote map_storage) (store_of closed_state)
       [''test-cb'' \<mapsto> \<lparr>val = open_state, version = ''v0''\<rparr>] =
     (Inr (Some open_state), test_remote map_storage, store_of closed_state,
      [''test-cb'' \<mapsto> \<lparr>val = open_state, version = ''v0''\<rparr>])"
  by (simp add: load_def thisName_def test_remote_def map_storage_def)

section \<open>Invariant of the reachable states\<close>

lemma allocated_new: "allocated (fst (new_CircuitBreaker opts nm hks h0)) (snd (new_CircuitBreaker opts nm hks h0))"
  by (simp add: new_CircuitBreaker_def alloc_def allocated_def)

lemma this_state_new:
  "this_state (fst (new_CircuitBreaker opts nm hks h0)) (snd (new_CircuitBreaker opts nm hks h0)) =
     \<lparr>status = CLOSED, failureCount = 0, successCount = 0, openedAt = None\<rparr>"
  by (simp add: new_CircuitBreaker_def alloc_def this_state_def)

lemma allocated_exec:
  "allocated b h \<Longrightarrow> allocated (fst (snd (exec c b h))) (snd (snd (exec c b h)))"
  by (cases c)
    (auto simp: assertCanExecute_def recordSuccess_def recordFailure_def getState_def
      setState_def alloc_def allocated_def Let_def split: prod.splits sum.splits)

lemma allocated_run:
  "allocated b h \<Longrightarrow> allocated (fst (snd (run cs b h))) (snd (snd (run cs b h)))"
  by (induction cs arbitrary: b h) (simp_all add: snd_run_Cons allocated_exec del: run.simps(2))

lemma state_after_getState: "allocated b h \<Longrightarrow> state_after (getState b h) = this_state b h"
  by (simp add: getState_def alloc_def allocated_def state_after_def this_state_def)

lemma state_after_exec:
  "allocated b h \<Longrightarrow>
   state_after (exec c b h) =
     (case c of
        AssertCanExecute now \<Rightarrow> state_after (assertCanExecute now b h)
      | RecordSuccess \<Rightarrow> state_after (recordSuccess b h)
      | RecordFailure now \<Rightarrow> state_after (recordFailure now b h)
      | _ \<Rightarrow> this_state b h)"
  using state_after_getState [of b h]
  by (cases c) (auto simp: state_after_def split: prod.splits)

lemma wf_state_exec:
  assumes "allocated b h" and "wf_state (this_state b h)"
  shows "wf_state (state_after (exec c b h))"
  unfolding state_after_exec [OF assms(1)] using assms(2)
  by (cases c)
    (auto simp: state_after_assertCanExecute state_after_recordSuccess
      state_after_recordFailure wf_state_def)

lemma wf_state_run:
  "allocated b h \<Longrightarrow> wf_state (this_state b h) \<Longrightarrow> wf_state (state_after (run cs b h))"
proof (induction cs arbitrary: b h)
  case Nil
  then show ?case by (simp add: state_after_def)
next
  case (Cons c cs)
  have "wf_state (state_after (run cs (fst (snd (exec c b h))) (snd (snd (exec c b h)))))"
    using Cons.prems
    by (intro Cons.IH allocated_exec) (simp_all add: this_state_after wf_state_exec)
  then show ?case by (simp only: state_after_run_Cons)
qed

lemma transition_resets:
  assumes "allocated b h"
    and "status (state_after (exec c b h)) \<noteq> status (this_state b h)"
  shows "failureCount (state_after (exec c b h)) = 0 \<and>
         successCount (state_after (exec c b h)) = 0 \<and>
         (status (state_after (exec c b h)) = HALF_OPEN \<longrightarrow> status (this_state b h) = OPEN) \<and>
         (status (state_after (exec c b h)) = CLOSED \<longrightarrow> openedAt (state_after (exec c b h)) = None)"
proof -
  note e = state_after_exec [OF assms(1), of c]
  from assms(2) show ?thesis
    unfolding e
    by (cases c)
      (auto simp: state_after_assertCanExecute state_after_recordSuccess
        state_after_recordFailure split: if_splits)
qed

text \<open>
  C8. Take any state the engine reaches from its initial state
  \<open>{CLOSED, 0, 0, undefined}\<close> by a sequence \<open>cs\<close> of calls of its public methods.
  Its status is one of CLOSED, OPEN, HALF_OPEN. \<open>openedAt\<close> is present exactly when
  the status is OPEN or HALF_OPEN, and HALF_OPEN is entered only from OPEN, so it is
  present exactly when the breaker is OPEN or was most recently OPEN; a step to CLOSED
  clears it. Whenever one more call \<open>c\<close> changes the status, the state it leaves has
  \<open>failureCount = 0\<close> and \<open>successCount = 0\<close>.
\<close>

theorem reachable_invariant:
  "status (state_after (reached opts nm hks h0 cs)) \<in> {CLOSED, OPEN, HALF_OPEN} \<and>
   (openedAt (state_after (reached opts nm hks h0 cs)) \<noteq> None \<longleftrightarrow>
      status (state_after (reached opts nm hks h0 cs)) = OPEN \<or>
      status (state_after (reached opts nm hks h0 cs)) = HALF_OPEN) \<and>
   (status (state_after (then_call c (reached opts nm hks h0 cs)))
      \<noteq> status (state_after (reached opts nm hks h0 cs)) \<longrightarrow>
    failureCount (state_after (then_call c (reached opts nm hks h0 cs))) = 0 \<and>
    successCount (state_after (then_call c (reached opts nm hks h0 cs))) = 0 \<and>
    (status (state_after (then_call c (reached opts nm hks h0 cs))) = HALF_OPEN \<longrightarrow>
       status (state_after (reached opts nm hks h0 cs)) = OPEN) \<and>
    (status (state_after (then_call c (reached opts nm hks h0 cs))) = CLOSED \<longrightarrow>
       openedAt (state_after (then_call c (reached opts nm hks h0 cs))) = None))"
proof -
  let ?b0 = "fst (new_CircuitBreaker opts nm hks h0)"
  let ?h0 = "snd (new_CircuitBreaker opts nm hks h0)"
  let ?x = "reached opts nm hks h0 cs"
  have x: "?x = run cs ?b0 ?h0"
    by (simp add: reached_def split: prod.splits)
  have a: "allocated (fst (snd ?x)) (snd (snd ?x))"
    unfolding x by (intro allocated_run allocated_new)
  have w: "wf_state (state_after ?x)"
    unfolding x by (intro wf_state_run allocated_new) (simp add: this_state_new wf_state_def)
  have s: "status (state_after ?x) \<in> {CLOSED, OPEN, HALF_OPEN}"
    by (cases "status (state_after ?x)") simp_all
  have t: "status (state_after (then_call c ?x)) \<noteq> status (state_after ?x) \<longrightarrow>
    failureCount (state_after (then_call c ?x)) = 0 \<and>
    successCount (state_after (then_call c ?x)) = 0 \<and>
    (status (state_after (then_call c ?x)) = HALF_OPEN \<longrightarrow> status (state_after ?x) = OPEN) \<and>
    (status (state_after (then_call c ?x)) = CLOSED \<longrightarrow>
       openedAt (state_after (then_call c ?x)) = None)"
    using transition_resets [OF a, of c] unfolding then_call_def this_state_after by blast
  from s w t show ?thesis unfolding wf_state_def by blast
qed

text \<open>
  The scenario of the tests: two failures open the breaker, the probe after the timeout
  makes it HALF_OPEN, two successes close it. Each of the three calls below changes the
  status.
\<close>

theorem reachable_invariant_witness:
  "state_after (reached test_options None None (store_of closed_state) [RecordFailure 10]) =
     \<lparr>status = CLOSED, failureCount = 1, successCount = 0, openedAt = None\<rparr> \<and>
   state_after (then_call (RecordFailure 20)
       (reached test_options None None (store_of closed_state) [RecordFailure 10])) =
     \<lparr>status = OPEN, failureCount = 0, successCount = 0, openedAt = Some 20\<rparr> \<and>
   state_after (then_call (AssertCanExecute 2000)
       (reached test_options None None (store_of closed_state)
          [RecordFailure 10, RecordFailure 20])) =
     \<lparr>status = HALF_OPEN, failureCount = 0, successCount = 0, openedAt = Some 20\<rparr> \<and>
   state_after (then_call RecordSuccess
       (reached test_options None None (store_of closed_state)
          [RecordFailure 10, RecordFailure 20, AssertCanExecute 2000, RecordSuccess])) =
     \<lparr>status = CLOSED, failureCount = 0, successCount = 0, openedAt = None\<rparr>"
  using
    reachable_invariant [of test_options None None "store_of closed_state"
      "[RecordFailure 10]" "RecordFailure 20"]
    reachable_invariant [of test_options None None "store_of closed_state"
      "[RecordFailure 10, RecordFailure 20]" "AssertCanExecute 2000"]
    reachable_invariant [of test_options None None "store_of closed_state"
      "[RecordFailure 10, RecordFailure 20, AssertCanExecute 2000, RecordSuccess]" RecordSuccess]
  by (simp add: reached_def then_call_def state_after_def new_CircuitBreaker_def alloc_def
      recordFailure_def recordSuccess_def assertCanExecute_def setState_def
      callOnStateChange_def isOpen_def isClosed_def isHalfOpen_def readyToRetry_def
      observed_def Let_def example_defs)

section \<open>Snapshot isolation of \<open>getState\<close>\<close>

text \<open>
  Every operation reads the store only through the engine's own \<open>state\<close> reference
  and writes only to a newly allocated address. So two stores that differ at most at an
  address \<open>r\<close> the engine does not hold give the same outcomes, and keep differing at
  most at \<open>r\<close>.
\<close>

lemma agree_except_state:
  "agree_except r b h h' \<Longrightarrow> cells h (state b) = cells h' (state b)"
  by (simp add: agree_except_def)

lemma agree_except_refl: "r < fresh h \<Longrightarrow> state b \<noteq> r \<Longrightarrow> state b < fresh h \<Longrightarrow> agree_except r b h h"
  by (simp add: agree_except_def)

lemma agree_except_mutate:
  "agree_except r b h h' \<Longrightarrow> agree_except r b (mutate r v h) h'"
  by (simp add: agree_except_def mutate_def)

lemma agree_except_setState:
  assumes "agree_except r b h h'"
  shows "\<exists>res b1 h1 h1'. setState next b h = (res, b1, h1) \<and> setState next b h' = (res, b1, h1') \<and>
           agree_except r b1 h1 h1'"
  using assms by (auto simp: agree_except_def setState_def alloc_def Let_def)

lemma agree_except_getState:
  assumes "agree_except r b h h'"
  shows "\<exists>a h1 h1'. getState b h = (a, b, h1) \<and> getState b h' = (a, b, h1') \<and>
           cells h1 a = cells h1' a \<and> agree_except r b h1 h1'"
  using assms by (auto simp: agree_except_def getState_def alloc_def Let_def)

lemma agree_except_recordSuccess:
  assumes "agree_except r b h h'"
  shows "\<exists>res b1 h1 h1'. recordSuccess b h = (res, b1, h1) \<and> recordSuccess b h' = (res, b1, h1') \<and>
           agree_except r b1 h1 h1'"
proof -
  note eq = agree_except_state [OF assms]
  show ?thesis
  proof (cases "isHalfOpen b h")
    case False
    with assms eq show ?thesis by (simp add: recordSuccess_def isHalfOpen_def)
  next
    case True
    let ?next = "if successCount (cells h (state b)) + 1 \<ge> successThreshold (options b)
        then \<lparr>status = CLOSED, failureCount = 0, successCount = 0, openedAt = None\<rparr>
        else (cells h (state b))\<lparr>successCount := successCount (cells h (state b)) + 1\<rparr>"
    from agree_except_setState [OF assms, of ?next]
    obtain res b1 h1 h1' where s: "setState ?next b h = (res, b1, h1)"
      "setState ?next b h' = (res, b1, h1')" "agree_except r b1 h1 h1'" by blast
    have "recordSuccess b h = (case res of Inl err \<Rightarrow> Inl (catchAndRethrow b1 ''recordSuccess'' err) | Inr u \<Rightarrow> Inr (), b1, h1)"
      using True s(1) by (auto simp: recordSuccess_def Let_def split: sum.splits if_splits)
    moreover have "recordSuccess b h' = (case res of Inl err \<Rightarrow> Inl (catchAndRethrow b1 ''recordSuccess'' err) | Inr u \<Rightarrow> Inr (), b1, h1')"
      using True s(2) eq by (auto simp: recordSuccess_def isHalfOpen_def Let_def split: sum.splits if_splits)
    ultimately show ?thesis using s(3) by blast
  qed
qed

lemma agree_except_recordFailure:
  assumes "agree_except r b h h'"
  shows "\<exists>res b1 h1 h1'. recordFailure now b h = (res, b1, h1) \<and>
           recordFailure now b h' = (res, b1, h1') \<and> agree_except r b1 h1 h1'"
proof -
  note eq = agree_except_state [OF assms]
  show ?thesis
  proof (cases "isClosed b h \<or> isHalfOpen b h")
    case False
    with assms eq show ?thesis by (simp add: recordFailure_def isHalfOpen_def isClosed_def)
  next
    case True
    let ?next = "if failureCount (cells h (state b)) + 1 \<ge> failureThreshold (options b)
        then \<lparr>status = OPEN, failureCount = 0, successCount = 0, openedAt = Some now\<rparr>
        else (cells h (state b))\<lparr>failureCount := failureCount (cells h (state b)) + 1\<rparr>"
    from agree_except_setState [OF assms, of ?next]
    obtain res b1 h1 h1' where s: "setState ?next b h = (res, b1, h1)"
      "setState ?next b h' = (res, b1, h1')" "agree_except r b1 h1 h1'" by blast
    have "recordFailure now b h = (case res of Inl err \<Rightarrow> Inl (catchAndRethrow b1 ''recordFailure'' err) | Inr u \<Rightarrow> Inr (), b1, h1)"
      using True s(1) by (auto simp: recordFailure_def Let_def split: sum.splits if_splits)
    moreover have "recordFailure now b h' = (case res of Inl err \<Rightarrow> Inl (catchAndRethrow b1 ''recordFailure'' err) | Inr u \<Rightarrow> Inr (), b1, h1')"
      using True s(2) eq
      by (auto simp: recordFailure_def isHalfOpen_def isClosed_def Let_def split: sum.splits if_splits)
    ultimately show ?thesis using s(3) by blast
  qed
qed

lemma agree_except_assertCanExecute:
  assumes "agree_except r b h h'"
  shows "\<exists>res b1 h1 h1'. assertCanExecute now b h = (res, b1, h1) \<and>
           assertCanExecute now b h' = (res, b1, h1') \<and> agree_except r b1 h1 h1'"
proof -
  note eq = agree_except_state [OF assms]
  show ?thesis
  proof (cases "isOpen b h \<and> readyToRetry now b h")
    case False
    with assms eq show ?thesis
      by (auto simp: assertCanExecute_def isOpen_def readyToRetry_def)
  next
    case True
    let ?next = "(cells h (state b))\<lparr>status := HALF_OPEN, successCount := 0, failureCount := 0\<rparr>"
    from agree_except_setState [OF assms, of ?next]
    obtain res b1 h1 h1' where s: "setState ?next b h = (res, b1, h1)"
      "setState ?next b h' = (res, b1, h1')" "agree_except r b1 h1 h1'" by blast
    have "assertCanExecute now b h = (case res of Inl err \<Rightarrow> Inl (catchAndRethrow b1 ''assertCanExecute'' err) | Inr u \<Rightarrow> Inr (), b1, h1)"
      using True s(1) by (auto simp: assertCanExecute_def split: sum.splits)
    moreover have "assertCanExecute now b h' = (case res of Inl err \<Rightarrow> Inl (catchAndRethrow b1 ''assertCanExecute'' err) | Inr u \<Rightarrow> Inr (), b1, h1')"
      using True s(2) eq
      by (auto simp: assertCanExecute_def isOpen_def readyToRetry_def split: sum.splits)
    ultimately show ?thesis using s(3) by blast
  qed
qed

lemma agree_except_exec:
  assumes "agree_except r b h h'"
  shows "\<exists>x b1 h1 h1'. exec c b h = (x, b1, h1) \<and> exec c b h' = (x, b1, h1') \<and>
           agree_except r b1 h1 h1'"
proof (cases c)
  case (AssertCanExecute now)
  with agree_except_assertCanExecute [OF assms, of now] show ?thesis by auto
next
  case RecordSuccess
  with agree_except_recordSuccess [OF assms] show ?thesis by auto
next
  case (RecordFailure now)
  with agree_except_recordFailure [OF assms, of now] show ?thesis by auto
next
  case GetState
  with agree_except_getState [OF assms] show ?thesis by auto
next
  case IsOpen
  with assms agree_except_state [OF assms] show ?thesis by (simp add: isOpen_def)
next
  case IsClosed
  with assms agree_except_state [OF assms] show ?thesis by (simp add: isClosed_def)
next
  case IsHalfOpen
  with assms agree_except_state [OF assms] show ?thesis by (simp add: isHalfOpen_def)
qed

lemma agree_except_run_events:
  "agree_except r b h h' \<Longrightarrow>
   \<exists>xs b1 h1 h1'. run_events r evs b h = (xs, b1, h1) \<and> run (calls_of evs) b h' = (xs, b1, h1') \<and>
      agree_except r b1 h1 h1'"
proof (induction evs arbitrary: b h h')
  case Nil
  then show ?case by simp
next
  case (Cons ev evs)
  show ?case
  proof (cases ev)
    case (Call c)
    from agree_except_exec [OF Cons.prems, of c]
    obtain x b1 h1 h1' where e: "exec c b h = (x, b1, h1)" "exec c b h' = (x, b1, h1')"
      "agree_except r b1 h1 h1'" by blast
    from Cons.IH [OF e(3)]
    obtain xs b2 h2 h2' where "run_events r evs b1 h1 = (xs, b2, h2)"
      "run (calls_of evs) b1 h1' = (xs, b2, h2')" "agree_except r b2 h2 h2'" by blast
    with Call e show ?thesis by simp
  next
    case (Mutate v)
    from Cons.IH [OF agree_except_mutate [OF Cons.prems, of v]] Mutate
    show ?thesis by simp
  qed
qed

text \<open>
  C9. \<open>getState()\<close> returns a reference \<open>r\<close> to a new object whose fields equal
  those of the engine's state; the engine's own object and its \<open>state\<close> reference are
  untouched and \<open>r\<close> is a different address. Whatever is later written through \<open>r\<close>
  (\<open>Mutate\<close> events, anywhere among later calls), the engine's state is the same, and
  every later call returns what it would have returned without those writes and leaves
  the engine in the same state.
\<close>

theorem getState_snapshot:
  assumes "allocated b h"
  shows "cells (snd (snd (getState b h))) (fst (getState b h)) = this_state b h \<and>
         fst (snd (getState b h)) = b \<and>
         state_after (getState b h) = this_state b h \<and>
         fst (getState b h) \<noteq> state b \<and>
         this_state b (mutate (fst (getState b h)) v (snd (snd (getState b h)))) = this_state b h \<and>
         fst (run_events (fst (getState b h)) evs b (snd (snd (getState b h)))) =
           fst (run (calls_of evs) b (snd (snd (getState b h)))) \<and>
         state_after (run_events (fst (getState b h)) evs b (snd (snd (getState b h)))) =
           state_after (run (calls_of evs) b (snd (snd (getState b h))))"
proof -
  let ?r = "fst (getState b h)" and ?h1 = "snd (snd (getState b h))"
  have r: "?r = fresh h" and h1: "?h1 = h\<lparr>cells := (cells h)(fresh h := cells h (state b)), fresh := Suc (fresh h)\<rparr>"
    and b1: "fst (snd (getState b h)) = b"
    by (simp_all add: getState_def alloc_def)
  have ne: "?r \<noteq> state b" using assms by (simp add: r allocated_def)
  have ag: "agree_except ?r b ?h1 ?h1"
    using assms by (intro agree_except_refl) (simp_all add: r h1 allocated_def)
  from agree_except_run_events [OF ag, of evs]
  obtain xs b2 h2 h2' where run: "run_events ?r evs b ?h1 = (xs, b2, h2)"
    "run (calls_of evs) b ?h1 = (xs, b2, h2')" "agree_except ?r b2 h2 h2'" by blast
  have "state_after (run_events ?r evs b ?h1) = state_after (run (calls_of evs) b ?h1)"
    using run agree_except_state [OF run(3)] by (simp add: state_after_def this_state_def)
  moreover have "fst (run_events ?r evs b ?h1) = fst (run (calls_of evs) b ?h1)"
    using run by simp
  moreover have "cells ?h1 ?r = this_state b h" by (simp add: r h1 this_state_def)
  moreover have "state_after (getState b h) = this_state b h"
    using assms by (rule state_after_getState)
  moreover have "this_state b (mutate ?r v ?h1) = this_state b h"
    using ne assms by (simp add: r h1 mutate_def this_state_def allocated_def)
  ultimately show ?thesis using b1 ne by blast
qed

text \<open>
  A caller overwrites the snapshot of a CLOSED breaker with an OPEN state; the breaker
  still answers CLOSED and counts its next failure from 0.
\<close>

theorem getState_snapshot_witness:
  "allocated test_breaker (store_of closed_state) \<and>
   fst (getState test_breaker (store_of closed_state)) = 1 \<and>
   cells (snd (snd (getState test_breaker (store_of closed_state)))) 1 = closed_state \<and>
   this_state test_breaker
     (mutate 1 open_state (snd (snd (getState test_breaker (store_of closed_state))))) =
     closed_state \<and>
   fst (run_events 1 [Mutate open_state, Call IsOpen, Call (RecordFailure 10), Call IsClosed]
          test_breaker (snd (snd (getState test_breaker (store_of closed_state))))) =
     [Answer False, Returned, Answer True] \<and>
   state_after
     (run_events 1 [Mutate open_state, Call IsOpen, Call (RecordFailure 10), Call IsClosed]
        test_breaker (snd (snd (getState test_breaker (store_of closed_state))))) =
     \<lparr>status = CLOSED, failureCount = 1, successCount = 0, openedAt = None\<rparr>"
  using getState_snapshot [of test_breaker "store_of closed_state" open_state
      "[Mutate open_state, Call IsOpen, Call (RecordFailure 10), Call IsClosed]"]
  by (simp add: allocated_def getState_def state_after_def alloc_def mutate_def
      recordFailure_def setState_def callOnStateChange_def isOpen_def isClosed_def
      isHalfOpen_def observed_def Let_def example_defs)

end
